theory Spec2Isabelle
  imports Main "HOL-Library.Sublist"
begin

section \<open>Values of the script \<open>extract_shas.py\<close>\<close>

text \<open>
  The script reads \<open>tree_client.json\<close> with \<open>json.load\<close>, walks \<open>data['tree']\<close>,
  keeps the entries whose path starts with \<open>src/components/ui/\<close> or equals
  \<open>src/lib/utils.ts\<close> in the dict \<open>ui_files\<close>, and prints
  \<open>json.dumps(ui_files, indent=2)\<close>.

  A value returned by \<open>json.load\<close> is \<open>None\<close>, a bool, an int, a float, a str, a list
  or a dict with str keys. A Python str is modelled by \<open>string\<close>, one \<open>char\<close> for each
  code point (code points below 256). The script never computes with a float; a float
  is carried by the text that \<open>json.dumps\<close> prints for it. A dict is the list of its
  items in insertion order, which is the order Python iterates and prints it in; the
  keys of a dict are distinct.
\<close>

datatype json =
    JNull
  | JBool bool
  | JInt int
  | JFloat string
  | JStr string
  | JArr "json list"
  | JObj "(string \<times> json) list"

text \<open>The exceptions the script can end with.\<close>

datatype py_error =
    FileNotFoundError
  | JSONDecodeError
  | KeyError string
  | TypeError
  | AttributeError

section \<open>The operations of Python the script uses\<close>

text \<open>
  \<open>obj[key]\<close> with a str key: a dict returns the value or raises \<open>KeyError\<close>; a list and
  a str take integer indices only, and the other values are not subscriptable:
  \<open>TypeError\<close>.
\<close>

fun getitem :: "json \<Rightarrow> string \<Rightarrow> py_error + json" where
  "getitem (JObj d) k = (case map_of d k of None \<Rightarrow> Inl (KeyError k) | Some v \<Rightarrow> Inr v)"
| "getitem _ k = Inl TypeError"

text \<open>
  \<open>for item in obj\<close>: a list yields its elements, a dict its keys, a str its characters
  (each a str of length one); the other values are not iterable: \<open>TypeError\<close>.
\<close>

fun iter :: "json \<Rightarrow> py_error + json list" where
  "iter (JArr xs) = Inr xs"
| "iter (JObj d) = Inr (map (\<lambda>kv. JStr (fst kv)) d)"
| "iter (JStr s) = Inr (map (\<lambda>c. JStr [c]) s)"
| "iter _ = Inl TypeError"

text \<open>
  \<open>d[k] = v\<close> on a dict: a key already present keeps its place and gets the new value, a
  new key goes to the end.
\<close>

fun setitem :: "(string \<times> json) list \<Rightarrow> string \<Rightarrow> json \<Rightarrow> (string \<times> json) list" where
  "setitem [] k v = [(k, v)]"
| "setitem ((k', v') # d) k v =
     (if k' = k then (k, v) # d else (k', v') # setitem d k v)"

section \<open>The filter loop\<close>

text \<open>
  The condition of line 9 on a str:
  \<open>path.startswith('src/components/ui/') or path == 'src/lib/utils.ts'\<close>.
\<close>

definition included :: "string \<Rightarrow> bool" where
  "included path \<longleftrightarrow> prefix ''src/components/ui/'' path \<or> path = ''src/lib/utils.ts''"

text \<open>
  One turn of the loop (lines 8 to 10). \<open>path.startswith\<close> is looked up first, and only a
  str has that method: any other value of \<open>item['path']\<close> raises \<open>AttributeError\<close>.
  \<open>item['sha']\<close> is evaluated only when the condition holds.
\<close>

definition loop_body :: "json \<Rightarrow> (string \<times> json) list \<Rightarrow> py_error + (string \<times> json) list" where
  "loop_body item ui_files =
     (case getitem item ''path'' of
        Inl e \<Rightarrow> Inl e
      | Inr (JStr path) \<Rightarrow>
          if included path then
            (case getitem item ''sha'' of
               Inl e \<Rightarrow> Inl e
             | Inr sha \<Rightarrow> Inr (setitem ui_files path sha))
          else Inr ui_files
      | Inr _ \<Rightarrow> Inl AttributeError)"

text \<open>The \<open>for\<close> loop of lines 7 to 10 over the items still to come; it stops at the first exception.\<close>

fun loop :: "json list \<Rightarrow> (string \<times> json) list \<Rightarrow> py_error + (string \<times> json) list" where
  "loop [] ui_files = Inr ui_files"
| "loop (item # items) ui_files =
     (case loop_body item ui_files of
        Inl e \<Rightarrow> Inl e
      | Inr ui_files' \<Rightarrow> loop items ui_files')"

text \<open>Lines 6 to 10: \<open>ui_files = {}\<close>, then the loop over \<open>data['tree']\<close>.\<close>

definition extract_shas :: "json \<Rightarrow> py_error + (string \<times> json) list" where
  "extract_shas data =
     (case getitem data ''tree'' of
        Inl e \<Rightarrow> Inl e
      | Inr tree \<Rightarrow>
          (case iter tree of
             Inl e \<Rightarrow> Inl e
           | Inr items \<Rightarrow> loop items []))"

section \<open>\<open>json.dumps(ui_files, indent=2)\<close>\<close>

text \<open>
  The encoder of the \<open>json\<close> module with its defaults and \<open>indent=2\<close>: item separator
  \<open>,\<close>, key separator \<open>: \<close>, \<open>ensure_ascii\<close> on. A str is written between double quotes;
  the quote and the backslash get a backslash, the control characters with a short name
  are written \<open>\n\<close>, \<open>\r\<close>, \<open>\t\<close>, \<open>\b\<close>, \<open>\f\<close>, and every other character outside
  the range from the space to the tilde is written as a \<open>\u\<close> escape of four lower-case
  hex digits.
\<close>

definition digit :: "nat \<Rightarrow> char" where
  "digit n = ''0123456789abcdef'' ! n"

definition escape_char :: "char \<Rightarrow> string" where
  "escape_char c =
     (if c = CHR 0x22 then [CHR 0x5C, CHR 0x22]
      else if c = CHR 0x5C then [CHR 0x5C, CHR 0x5C]
      else if c = CHR 0x0A then [CHR 0x5C, CHR ''n'']
      else if c = CHR 0x0D then [CHR 0x5C, CHR ''r'']
      else if c = CHR 0x09 then [CHR 0x5C, CHR ''t'']
      else if c = CHR 0x08 then [CHR 0x5C, CHR ''b'']
      else if c = CHR 0x0C then [CHR 0x5C, CHR ''f'']
      else if (of_char c :: nat) < 32 \<or> 126 < (of_char c :: nat) then
        [CHR 0x5C, CHR ''u'', CHR ''0'', CHR ''0'',
         digit (of_char c div 16), digit (of_char c mod 16)]
      else [c])"

definition encode_basestring_ascii :: "string \<Rightarrow> string" where
  "encode_basestring_ascii s = [CHR 0x22] @ concat (map escape_char s) @ [CHR 0x22]"

text \<open>\<open>int.__repr__\<close>: the decimal digits, after a minus sign for a negative number.\<close>

function nat_repr :: "nat \<Rightarrow> string" where
  "nat_repr n = (if n < 10 then [digit n] else nat_repr (n div 10) @ [digit (n mod 10)])"
  by pat_completeness auto
termination
  by (relation "measure id") auto

definition int_repr :: "int \<Rightarrow> string" where
  "int_repr i = (if i < 0 then CHR ''-'' # nat_repr (nat (- i)) else nat_repr (nat i))"

text \<open>\<open>sep.join(parts)\<close>.\<close>

fun join :: "string \<Rightarrow> string list \<Rightarrow> string" where
  "join sep [] = []"
| "join sep [x] = x"
| "join sep (x # y # ys) = x @ sep @ join sep (y # ys)"

text \<open>A line break followed by two spaces for each level of nesting.\<close>

definition newline_indent :: "nat \<Rightarrow> string" where
  "newline_indent level = CHR 0x0A # replicate (2 * level) CHR '' ''"

text \<open>
  The text of a value at a nesting level. An empty list is \<open>[]\<close> and an empty dict
  \<open>{}\<close>; otherwise each element or item is on a line of its own, in the order of the
  list or dict, and the closing bracket is on a line at the outer level.
\<close>

fun iterencode :: "nat \<Rightarrow> json \<Rightarrow> string" where
  "iterencode level JNull = ''null''"
| "iterencode level (JBool b) = (if b then ''true'' else ''false'')"
| "iterencode level (JInt i) = int_repr i"
| "iterencode level (JFloat r) = r"
| "iterencode level (JStr s) = encode_basestring_ascii s"
| "iterencode level (JArr lst) =
     (if lst = [] then ''[]''
      else ''['' @ newline_indent (Suc level)
           @ join ('','' @ newline_indent (Suc level)) (map (iterencode (Suc level)) lst)
           @ newline_indent level @ '']'')"
| "iterencode level (JObj dct) =
     (if dct = [] then ''{}''
      else ''{'' @ newline_indent (Suc level)
           @ join ('','' @ newline_indent (Suc level))
               (map (\<lambda>kv. encode_basestring_ascii (fst kv) @ '': ''
                            @ iterencode (Suc level) (snd kv)) dct)
           @ newline_indent level @ ''}'')"

definition dumps :: "(string \<times> json) list \<Rightarrow> string" where
  "dumps ui_files = iterencode 0 (JObj ui_files)"

section \<open>The whole script\<close>

text \<open>
  What the script can see and change: the files it can open for reading, by name, and
  the text written to standard output so far.
\<close>

record world =
  files :: "string \<Rightarrow> string option"
  stdout :: string

text \<open>\<open>print(s)\<close> writes \<open>s\<close> and a line break.\<close>

definition print :: "string \<Rightarrow> world \<Rightarrow> world" where
  "print s w = w\<lparr>stdout := stdout w @ s @ [CHR 0x0A]\<rparr>"

text \<open>
  The script, from line 3 to line 12. The parser \<open>json.load\<close> is a parameter: it gives
  the parsed document of a text, or nothing where it raises \<open>JSONDecodeError\<close>. The result
  is the world after the run and the exception the run ended with, if any. An exception
  ends the script where it is raised; the only statement that writes is the last one.
\<close>

definition script :: "(string \<Rightarrow> json option) \<Rightarrow> world \<Rightarrow> world \<times> py_error option" where
  "script json_load w =
     (case files w ''tree_client.json'' of
        None \<Rightarrow> (w, Some FileNotFoundError)
      | Some text \<Rightarrow>
          (case json_load text of
             None \<Rightarrow> (w, Some JSONDecodeError)
           | Some data \<Rightarrow>
               (case extract_shas data of
                  Inl e \<Rightarrow> (w, Some e)
                | Inr ui_files \<Rightarrow> (print (dumps ui_files) w, None))))"

section \<open>Valid documents\<close>

text \<open>
  The documents the specification calls valid: an object whose \<open>tree\<close> field is a list of
  objects, each with a str \<open>path\<close> and a str \<open>sha\<close>. \<open>doc_pairs\<close> gives the \<open>(path, sha)\<close> pairs
  of a valid document in the order of its tree, and nothing for any other document.
\<close>

fun entry_pair :: "json \<Rightarrow> (string \<times> string) option" where
  "entry_pair (JObj e) =
     (case (map_of e ''path'', map_of e ''sha'') of
        (Some (JStr p), Some (JStr s)) \<Rightarrow> Some (p, s)
      | _ \<Rightarrow> None)"
| "entry_pair _ = None"

fun entry_pairs :: "json list \<Rightarrow> (string \<times> string) list option" where
  "entry_pairs [] = Some []"
| "entry_pairs (item # items) =
     (case entry_pair item of
        None \<Rightarrow> None
      | Some ps \<Rightarrow> (case entry_pairs items of None \<Rightarrow> None | Some pss \<Rightarrow> Some (ps # pss)))"

fun doc_pairs :: "json \<Rightarrow> (string \<times> string) list option" where
  "doc_pairs (JObj d) =
     (case map_of d ''tree'' of Some (JArr items) \<Rightarrow> entry_pairs items | _ \<Rightarrow> None)"
| "doc_pairs _ = None"

text \<open>
  What the loop computes on the pairs of a valid document: the matching pairs stored one
  after the other into the dict.
\<close>

fun collect :: "(string \<times> string) list \<Rightarrow> (string \<times> json) list \<Rightarrow> (string \<times> json) list" where
  "collect [] ui_files = ui_files"
| "collect ((p, s) # ps) ui_files =
     collect ps (if included p then setitem ui_files p (JStr s) else ui_files)"

text \<open>
  The order of first encounter of a list of paths: each path once, at the place of its
  first occurrence.
\<close>

fun first_encounter :: "string list \<Rightarrow> string list" where
  "first_encounter [] = []"
| "first_encounter (p # ps) = p # filter (\<lambda>q. q \<noteq> p) (first_encounter ps)"

section \<open>Example documents\<close>

text \<open>
  The example of the specification: two matching entries and one entry outside the rule.
\<close>

definition example_doc :: json where
  "example_doc =
     JObj [(''tree'', JArr
       [JObj [(''path'', JStr ''src/components/ui/button.tsx''), (''sha'', JStr ''abc123'')],
        JObj [(''path'', JStr ''src/lib/utils.ts''), (''sha'', JStr ''def456'')],
        JObj [(''path'', JStr ''src/pages/index.tsx''), (''sha'', JStr ''zzz999'')]])]"

text \<open>The path \<open>src/lib/utils.ts\<close> twice, with two hashes, around another matching entry.\<close>

definition duplicate_doc :: json where
  "duplicate_doc =
     JObj [(''tree'', JArr
       [JObj [(''path'', JStr ''src/lib/utils.ts''), (''sha'', JStr ''old111'')],
        JObj [(''path'', JStr ''src/components/ui/card.tsx''), (''sha'', JStr ''ccc333'')],
        JObj [(''path'', JStr ''src/lib/utils.ts''), (''sha'', JStr ''new222'')]])]"

text \<open>The example again, with further fields on the document and on every entry.\<close>

definition example_doc_extra :: json where
  "example_doc_extra =
     JObj [(''sha'', JStr ''root000''),
           (''tree'', JArr
       [JObj [(''path'', JStr ''src/components/ui/button.tsx''), (''mode'', JStr ''100644''),
              (''type'', JStr ''blob''), (''sha'', JStr ''abc123''), (''size'', JInt 1204)],
        JObj [(''mode'', JStr ''100644''), (''path'', JStr ''src/lib/utils.ts''),
              (''sha'', JStr ''def456'')],
        JObj [(''path'', JStr ''src/pages/index.tsx''), (''sha'', JStr ''zzz999''),
              (''url'', JNull)]]),
           (''truncated'', JBool False)]"

text \<open>An entry outside the rule without a \<open>sha\<close>, between two matching entries.\<close>

definition unmatched_no_sha_doc :: json where
  "unmatched_no_sha_doc =
     JObj [(''tree'', JArr
       [JObj [(''path'', JStr ''src/components/ui/button.tsx''), (''sha'', JStr ''abc123'')],
        JObj [(''path'', JStr ''src/pages/index.tsx'')],
        JObj [(''path'', JStr ''src/lib/utils.ts''), (''sha'', JStr ''def456'')]])]"


text \<open>
  A world whose file \<open>tree_client.json\<close> holds a given text, with nothing printed yet,
  and a parser that reads one given document from any text.
\<close>

definition world_with :: "string \<Rightarrow> world" where
  "world_with content = \<lparr>files = [''tree_client.json'' \<mapsto> content], stdout = []\<rparr>"

definition load_as :: "json \<Rightarrow> string \<Rightarrow> json option" where
  "load_as data content = Some data"

text \<open>A parser that knows two texts: one for the example, one for the example with further fields.\<close>

definition example_load :: "string \<Rightarrow> json option" where
  "example_load content =
     (if content = ''plain'' then Some example_doc
      else if content = ''extra'' then Some example_doc_extra
      else None)"

section \<open>Facts about the dict and the loop\<close>

text \<open>Storing into a dict: the keys, their order, the values.\<close>

lemma map_fst_setitem:
  "map fst (setitem d k v) = (if k \<in> set (map fst d) then map fst d else map fst d @ [k])"
  by (induction d) (simp_all, force+)

lemma set_setitem_keys: "set (map fst (setitem d k v)) = insert k (set (map fst d))"
  by (auto simp: map_fst_setitem)

lemma map_of_setitem: "map_of (setitem d k v) = (map_of d)(k \<mapsto> v)"
  by (induction d) (auto simp: fun_eq_iff)

lemma distinct_setitem: "distinct (map fst d) \<Longrightarrow> distinct (map fst (setitem d k v))"
  by (simp add: map_fst_setitem)

lemma loop_body_cases:
  "loop_body item ui = Inr ui' \<Longrightarrow> ui' = ui \<or> (\<exists>p v. included p \<and> ui' = setitem ui p v)"
  by (auto simp: loop_body_def split: sum.splits json.splits if_splits)

lemma loop_body_keys:
  assumes "loop_body item ui = Inr ui'" and "k \<in> set (map fst ui')"
  shows "k \<in> set (map fst ui) \<or> included k"
proof -
  from loop_body_cases [OF assms(1)] show ?thesis
  proof
    assume "ui' = ui"
    with assms(2) show ?thesis by simp
  next
    assume "\<exists>p v. included p \<and> ui' = setitem ui p v"
    then obtain p v where p: "included p" and u: "ui' = setitem ui p v" by blast
    from assms(2) have "k \<in> insert p (set (map fst ui))"
      unfolding u set_setitem_keys .
    with p show ?thesis by blast
  qed
qed

lemma loop_keys:
  "loop items ui = Inr ui' \<Longrightarrow> k \<in> set (map fst ui') \<Longrightarrow> k \<in> set (map fst ui) \<or> included k"
proof (induction items arbitrary: ui)
  case Nil
  then show ?case by simp
next
  case (Cons item items)
  from Cons.prems(1) obtain ui1 where b: "loop_body item ui = Inr ui1"
    and l: "loop items ui1 = Inr ui'"
    by (auto split: sum.splits)
  from Cons.IH [OF l Cons.prems(2)] loop_body_keys [OF b] show ?case by blast
qed

lemma loop_body_entry:
  "entry_pair item = Some (p, s) \<Longrightarrow>
     loop_body item ui = Inr (if included p then setitem ui p (JStr s) else ui)"
  by (cases item) (auto simp: loop_body_def split: option.splits json.splits)

lemma loop_entries: "entry_pairs items = Some ps \<Longrightarrow> loop items ui = Inr (collect ps ui)"
proof (induction items arbitrary: ps ui)
  case Nil
  then show ?case by simp
next
  case (Cons item items)
  from Cons.prems obtain p s pss where e: "entry_pair item = Some (p, s)"
    and r: "entry_pairs items = Some pss" and ps: "ps = (p, s) # pss"
    by (auto split: option.splits)
  show ?case by (simp add: ps loop_body_entry [OF e] Cons.IH [OF r])
qed

lemma extract_valid: "doc_pairs data = Some ps \<Longrightarrow> extract_shas data = Inr (collect ps [])"
  by (cases data) (auto simp: extract_shas_def loop_entries split: option.splits json.splits)

lemma first_encounter_filter:
  "filter P (first_encounter xs) = first_encounter (filter P xs)"
proof (induction xs)
  case Nil
  then show ?case by simp
next
  case (Cons x xs)
  show ?case
  proof (cases "P x")
    case True
    then show ?thesis by (simp add: Cons.IH [symmetric] conj_commute)
  next
    case False
    have "filter (\<lambda>q. q \<noteq> x \<and> P q) ys = filter P ys" for ys
      using False by (induction ys) auto
    with False show ?thesis by (simp add: Cons.IH [symmetric])
  qed
qed

lemma first_encounter_distinct: "distinct xs \<Longrightarrow> first_encounter xs = xs"
proof (induction xs)
  case Nil
  then show ?case by simp
next
  case (Cons x xs)
  then have "filter (\<lambda>q. q \<noteq> x) xs = xs" by (simp add: filter_id_conv) blast
  with Cons show ?case by simp
qed

lemma first_encounter_again:
  "p \<in> set xs \<Longrightarrow> first_encounter (xs @ p # ys) = first_encounter (xs @ ys)"
proof (induction xs)
  case Nil
  then show ?case by simp
next
  case (Cons x xs)
  show ?case
  proof (cases "p = x")
    case True
    have "filter (\<lambda>q. q \<noteq> x) (first_encounter (xs @ x # ys))
          = filter (\<lambda>q. q \<noteq> x) (first_encounter (xs @ ys))"
      by (simp add: first_encounter_filter)
    with True show ?thesis by simp
  next
    case False
    with Cons.prems have "p \<in> set xs" by simp
    from Cons.IH [OF this] show ?thesis by simp
  qed
qed

lemma set_first_encounter: "set (first_encounter xs) = set xs"
  by (induction xs) auto

lemma distinct_first_encounter: "distinct (first_encounter xs)"
  by (induction xs) (auto simp: set_first_encounter)

lemma distinct_collect:
  "distinct (map fst ui) \<Longrightarrow> distinct (map fst (collect ps ui))"
  by (induction ps ui rule: collect.induct) (simp_all add: distinct_setitem)

lemma keys_collect:
  "distinct (map fst ui) \<Longrightarrow>
     map fst (collect ps ui) = first_encounter (map fst ui @ filter included (map fst ps))"
proof (induction ps ui rule: collect.induct)
  case (1 ui)
  then show ?case by (simp add: first_encounter_distinct)
next
  case (2 p s ps ui)
  show ?case
  proof (cases "included p")
    case False
    with 2 show ?thesis by simp
  next
    case True
    from "2.prems" have d: "distinct (map fst (setitem ui p (JStr s)))"
      by (rule distinct_setitem)
    have "map fst (collect ((p, s) # ps) ui)
          = first_encounter (map fst (setitem ui p (JStr s)) @ filter included (map fst ps))"
      using True "2.IH" d by simp
    also have "\<dots> = first_encounter (map fst ui @ p # filter included (map fst ps))"
      by (simp add: map_fst_setitem first_encounter_again)
    finally show ?thesis using True by simp
  qed
qed

lemma map_of_collect:
  "map_of (collect ps ui) k =
     (if included k \<and> k \<in> set (map fst ps)
      then Some (JStr (snd (last (filter (\<lambda>e. fst e = k) ps))))
      else map_of ui k)"
proof (induction ps ui rule: collect.induct)
  case (1 ui)
  then show ?case by simp
next
  case (2 p s ps ui)
  have e: "k \<in> set (map fst ps) \<longleftrightarrow> filter (\<lambda>e. fst e = k) ps \<noteq> []"
    by (auto simp: filter_empty_conv)
  show ?case
    unfolding collect.simps "2.IH" using e by (auto simp: map_of_setitem)
qed

lemma example_doc_pairs:
  "doc_pairs example_doc =
     Some [(''src/components/ui/button.tsx'', ''abc123''),
           (''src/lib/utils.ts'', ''def456''),
           (''src/pages/index.tsx'', ''zzz999'')]"
  by (simp add: example_doc_def)

lemma example_doc_extract:
  "extract_shas example_doc =
     Inr [(''src/components/ui/button.tsx'', JStr ''abc123''),
          (''src/lib/utils.ts'', JStr ''def456'')]"
  by (simp add: extract_valid [OF example_doc_pairs] included_def)

lemma duplicate_doc_pairs:
  "doc_pairs duplicate_doc =
     Some [(''src/lib/utils.ts'', ''old111''),
           (''src/components/ui/card.tsx'', ''ccc333''),
           (''src/lib/utils.ts'', ''new222'')]"
  by (simp add: duplicate_doc_def)

lemma duplicate_doc_extract:
  "extract_shas duplicate_doc =
     Inr [(''src/lib/utils.ts'', JStr ''new222''),
          (''src/components/ui/card.tsx'', JStr ''ccc333'')]"
  by (simp add: extract_valid [OF duplicate_doc_pairs] included_def)

text \<open>
  C1 (soundness of the filter). A valid document makes the loop finish with a dict, and
  every key of a dict the loop finishes with, on any document at all, starts with
  \<open>src/components/ui/\<close> or is \<open>src/lib/utils.ts\<close>.
\<close>

theorem output_keys_included:
  "(\<forall>ps. doc_pairs data = Some ps \<longrightarrow> (\<exists>ui. extract_shas data = Inr ui)) \<and>
   (\<forall>ui k. extract_shas data = Inr ui \<longrightarrow> k \<in> set (map fst ui) \<longrightarrow> included k)"
proof (intro conjI allI impI)
  fix ps
  assume "doc_pairs data = Some ps"
  then show "\<exists>ui. extract_shas data = Inr ui"
    by (simp add: extract_valid)
next
  fix ui k
  assume e: "extract_shas data = Inr ui" and k: "k \<in> set (map fst ui)"
  from e obtain items where "loop items [] = Inr ui"
    by (auto simp: extract_shas_def split: sum.splits)
  from loop_keys [OF this k] show "included k" by simp
qed

theorem output_keys_included_witness:
  "doc_pairs example_doc =
     Some [(''src/components/ui/button.tsx'', ''abc123''),
           (''src/lib/utils.ts'', ''def456''),
           (''src/pages/index.tsx'', ''zzz999'')] \<and>
   extract_shas example_doc =
     Inr [(''src/components/ui/button.tsx'', JStr ''abc123''),
          (''src/lib/utils.ts'', JStr ''def456'')] \<and>
   included ''src/components/ui/button.tsx'' \<and> included ''src/lib/utils.ts''"
proof -
  note t = output_keys_included [of example_doc, THEN conjunct2, rule_format,
    OF example_doc_extract]
  have "included ''src/components/ui/button.tsx''" by (rule t) simp
  moreover have "included ''src/lib/utils.ts''" by (rule t) simp
  ultimately show ?thesis
    using example_doc_pairs example_doc_extract by simp
qed

lemma length_filter_fst:
  "length (filter (\<lambda>e. fst e = p) ps) = count_list (map fst ps) p"
  by (induction ps) auto

lemma filter_fst_once:
  assumes "count_list (map fst ps) p = 1" and "(p, s) \<in> set ps"
  shows "filter (\<lambda>e. fst e = p) ps = [(p, s)]"
proof -
  from assms(1) have "length (filter (\<lambda>e. fst e = p) ps) = 1"
    by (simp add: length_filter_fst)
  then obtain x where x: "filter (\<lambda>e. fst e = p) ps = [x]"
    by (cases "filter (\<lambda>e. fst e = p) ps") auto
  from assms(2) have "(p, s) \<in> set (filter (\<lambda>e. fst e = p) ps)" by simp
  with x show ?thesis by simp
qed

lemma keys_collect_empty:
  "map fst (collect ps []) = first_encounter (filter included (map fst ps))"
  using keys_collect [of "[]" ps] by simp

lemma filter_key_distinct:
  "distinct (map fst ui) \<Longrightarrow> map_of ui p = Some v \<Longrightarrow> filter (\<lambda>kv. fst kv = p) ui = [(p, v)]"
proof (induction ui)
  case Nil
  then show ?case by simp
next
  case (Cons kv ui)
  show ?case
  proof (cases "fst kv = p")
    case True
    with Cons.prems(1) have "p \<notin> fst ` set ui" by auto
    then have "filter (\<lambda>kv. fst kv = p) ui = []"
      by (auto simp: filter_empty_conv)
    with True Cons.prems(2) show ?thesis by (cases kv) simp
  next
    case False
    with Cons show ?thesis by (cases kv) auto
  qed
qed

text \<open>
  C2 (completeness of the filter). On a valid document the loop finishes with a dict in
  which every entry of the tree whose path matches is a key; where the path occurs once
  among the paths of the tree, the value stored under it is the \<open>sha\<close> of that entry.
\<close>

theorem matching_entries_kept:
  assumes "doc_pairs data = Some ps"
  shows "\<exists>ui. extract_shas data = Inr ui \<and>
           (\<forall>p s. (p, s) \<in> set ps \<longrightarrow> included p \<longrightarrow>
              p \<in> set (map fst ui) \<and>
              (count_list (map fst ps) p = 1 \<longrightarrow> map_of ui p = Some (JStr s)))"
proof (intro exI conjI allI impI)
  show "extract_shas data = Inr (collect ps [])"
    using assms by (rule extract_valid)
next
  fix p s
  assume m: "(p, s) \<in> set ps" and i: "included p"
  from m have k: "p \<in> set (map fst ps)" by force
  with i show "p \<in> set (map fst (collect ps []))"
    by (simp add: keys_collect_empty set_first_encounter)
  assume "count_list (map fst ps) p = 1"
  from filter_fst_once [OF this m] i k show "map_of (collect ps []) p = Some (JStr s)"
    by (simp add: map_of_collect)
qed

theorem matching_entries_kept_witness:
  "doc_pairs example_doc =
     Some [(''src/components/ui/button.tsx'', ''abc123''),
           (''src/lib/utils.ts'', ''def456''),
           (''src/pages/index.tsx'', ''zzz999'')] \<and>
   (\<exists>ui. extract_shas example_doc = Inr ui \<and>
      map_of ui ''src/components/ui/button.tsx'' = Some (JStr ''abc123'') \<and>
      map_of ui ''src/lib/utils.ts'' = Some (JStr ''def456''))"
proof -
  from matching_entries_kept [OF example_doc_pairs]
  obtain ui where e: "extract_shas example_doc = Inr ui"
    and a: "\<And>p s. (p, s) \<in> set [(''src/components/ui/button.tsx'', ''abc123''),
           (''src/lib/utils.ts'', ''def456''),
           (''src/pages/index.tsx'', ''zzz999'')] \<Longrightarrow> included p \<Longrightarrow>
        count_list (map fst [(''src/components/ui/button.tsx'', ''abc123''),
           (''src/lib/utils.ts'', ''def456''),
           (''src/pages/index.tsx'', ''zzz999'')]) p = 1 \<Longrightarrow> map_of ui p = Some (JStr s)"
    by blast
  have "map_of ui ''src/components/ui/button.tsx'' = Some (JStr ''abc123'')"
    by (rule a) (simp_all add: included_def)
  moreover have "map_of ui ''src/lib/utils.ts'' = Some (JStr ''def456'')"
    by (rule a) (simp_all add: included_def)
  ultimately show ?thesis using e example_doc_pairs by blast
qed

text \<open>
  C3 (duplicate paths). On a valid document in which a matching path occurs more than
  once, the dict the loop finishes with has exactly one item with that path as its key,
  and its value is the \<open>sha\<close> of the last entry of the tree with that path.
\<close>

theorem duplicate_path_last_wins:
  assumes "doc_pairs data = Some ps" and "included p"
    and "1 < count_list (map fst ps) p"
  shows "\<exists>ui. extract_shas data = Inr ui \<and>
           filter (\<lambda>kv. fst kv = p) ui =
             [(p, JStr (snd (last (filter (\<lambda>e. fst e = p) ps))))]"
proof (intro exI conjI)
  show "extract_shas data = Inr (collect ps [])"
    using assms(1) by (rule extract_valid)
next
  from assms(3) have "count_list (map fst ps) p \<noteq> 0" by simp
  then have "p \<in> set (map fst ps)" by (simp add: count_list_0_iff)
  with assms(2)
  have "map_of (collect ps []) p = Some (JStr (snd (last (filter (\<lambda>e. fst e = p) ps))))"
    by (simp add: map_of_collect)
  moreover have "distinct (map fst (collect ps []))"
    by (rule distinct_collect) simp
  ultimately show "filter (\<lambda>kv. fst kv = p) (collect ps []) =
      [(p, JStr (snd (last (filter (\<lambda>e. fst e = p) ps))))]"
    by (rule filter_key_distinct [rotated])
qed

theorem duplicate_path_last_wins_witness:
  "doc_pairs duplicate_doc =
     Some [(''src/lib/utils.ts'', ''old111''),
           (''src/components/ui/card.tsx'', ''ccc333''),
           (''src/lib/utils.ts'', ''new222'')] \<and>
   included ''src/lib/utils.ts'' \<and>
   (\<exists>ui. extract_shas duplicate_doc = Inr ui \<and>
      filter (\<lambda>kv. fst kv = ''src/lib/utils.ts'') ui = [(''src/lib/utils.ts'', JStr ''new222'')])"
proof -
  have i: "included ''src/lib/utils.ts''" by (simp add: included_def)
  have c: "1 < count_list (map fst [(''src/lib/utils.ts'', ''old111''),
           (''src/components/ui/card.tsx'', ''ccc333''),
           (''src/lib/utils.ts'', ''new222'')]) ''src/lib/utils.ts''"
    by simp
  from duplicate_path_last_wins [OF duplicate_doc_pairs i c]
  show ?thesis using duplicate_doc_pairs i by simp
qed

lemma join_Cons: "join sep (x # xs) = x @ concat (map (\<lambda>y. sep @ y) xs)"
  by (induction xs arbitrary: x) simp_all

lemma dumps_Cons:
  "dumps (kv # rest) =
     ''{'' @ newline_indent 1
       @ (encode_basestring_ascii (fst kv) @ '': '' @ iterencode 1 (snd kv))
       @ concat (map (\<lambda>kv. '','' @ newline_indent 1
                      @ (encode_basestring_ascii (fst kv) @ '': '' @ iterencode 1 (snd kv))) rest)
       @ newline_indent 0 @ ''}''"
  by (simp add: dumps_def join_Cons comp_def)

lemma duplicate_doc_text:
  "''{'' @ newline_indent 1
       @ (encode_basestring_ascii ''src/lib/utils.ts'' @ '': '' @ iterencode 1 (JStr ''new222''))
       @ concat (map (\<lambda>kv. '','' @ newline_indent 1
                      @ (encode_basestring_ascii (fst kv) @ '': '' @ iterencode 1 (snd kv)))
                  [(''src/components/ui/card.tsx'', JStr ''ccc333'')])
       @ newline_indent 0 @ ''}'' =
   ''{'' @ [CHR 0x0A] @
   ''  '' @ [CHR 0x22] @ ''src/lib/utils.ts'' @ [CHR 0x22] @ '': ''
        @ [CHR 0x22] @ ''new222'' @ [CHR 0x22] @ '','' @ [CHR 0x0A] @
   ''  '' @ [CHR 0x22] @ ''src/components/ui/card.tsx'' @ [CHR 0x22] @ '': ''
        @ [CHR 0x22] @ ''ccc333'' @ [CHR 0x22] @ [CHR 0x0A] @
   ''}''"
  by code_simp

text \<open>
  C5 (order of the output). On a valid document the keys of the dict the loop finishes
  with are the matching paths of the tree in the order of their first occurrence, each
  once. The text of \<open>json.dumps\<close> for that dict is \<open>{}\<close> when the dict is empty;
  otherwise it is the opening brace, then the items in the order of the dict, the first
  on a new indented line and every later one after a comma on a new indented line, then
  a line break and the closing brace. Nothing is sorted or reordered.
\<close>

theorem output_order_first_encounter:
  assumes "doc_pairs data = Some ps"
  shows "\<exists>ui. extract_shas data = Inr ui \<and>
           map fst ui = first_encounter (filter included (map fst ps)) \<and>
           dumps ui =
             (case ui of
                [] \<Rightarrow> ''{}''
              | kv # rest \<Rightarrow>
                  ''{'' @ newline_indent 1
                    @ (encode_basestring_ascii (fst kv) @ '': '' @ iterencode 1 (snd kv))
                    @ concat (map (\<lambda>kv. '','' @ newline_indent 1
                                   @ (encode_basestring_ascii (fst kv) @ '': ''
                                      @ iterencode 1 (snd kv))) rest)
                    @ newline_indent 0 @ ''}'')"
proof (intro exI conjI)
  show "extract_shas data = Inr (collect ps [])"
    using assms by (rule extract_valid)
  show "map fst (collect ps []) = first_encounter (filter included (map fst ps))"
    by (rule keys_collect_empty)
  show "dumps (collect ps []) =
      (case collect ps [] of
         [] \<Rightarrow> ''{}''
       | kv # rest \<Rightarrow>
           ''{'' @ newline_indent 1
             @ (encode_basestring_ascii (fst kv) @ '': '' @ iterencode 1 (snd kv))
             @ concat (map (\<lambda>kv. '','' @ newline_indent 1
                            @ (encode_basestring_ascii (fst kv) @ '': ''
                               @ iterencode 1 (snd kv))) rest)
             @ newline_indent 0 @ ''}'')"
  proof (cases "collect ps []")
    case Nil
    then show ?thesis by (simp add: dumps_def)
  next
    case (Cons kv rest)
    then show ?thesis by (simp only: dumps_Cons list.case)
  qed
qed

theorem output_order_first_encounter_witness:
  "doc_pairs duplicate_doc =
     Some [(''src/lib/utils.ts'', ''old111''),
           (''src/components/ui/card.tsx'', ''ccc333''),
           (''src/lib/utils.ts'', ''new222'')] \<and>
   (\<exists>ui. extract_shas duplicate_doc = Inr ui \<and>
      map fst ui = [''src/lib/utils.ts'', ''src/components/ui/card.tsx''] \<and>
      dumps ui =
        ''{'' @ [CHR 0x0A] @
        ''  '' @ [CHR 0x22] @ ''src/lib/utils.ts'' @ [CHR 0x22] @ '': ''
             @ [CHR 0x22] @ ''new222'' @ [CHR 0x22] @ '','' @ [CHR 0x0A] @
        ''  '' @ [CHR 0x22] @ ''src/components/ui/card.tsx'' @ [CHR 0x22] @ '': ''
             @ [CHR 0x22] @ ''ccc333'' @ [CHR 0x22] @ [CHR 0x0A] @
        ''}'')"
proof -
  from output_order_first_encounter [OF duplicate_doc_pairs]
  obtain ui where e: "extract_shas duplicate_doc = Inr ui"
    and k: "map fst ui = first_encounter (filter included (map fst
         [(''src/lib/utils.ts'', ''old111''),
          (''src/components/ui/card.tsx'', ''ccc333''),
          (''src/lib/utils.ts'', ''new222'')]))"
    and d: "dumps ui =
             (case ui of
                [] \<Rightarrow> ''{}''
              | kv # rest \<Rightarrow>
                  ''{'' @ newline_indent 1
                    @ (encode_basestring_ascii (fst kv) @ '': '' @ iterencode 1 (snd kv))
                    @ concat (map (\<lambda>kv. '','' @ newline_indent 1
                                   @ (encode_basestring_ascii (fst kv) @ '': ''
                                      @ iterencode 1 (snd kv))) rest)
                    @ newline_indent 0 @ ''}'')"
    by blast
  from k have h: "map fst ui = [''src/lib/utils.ts'', ''src/components/ui/card.tsx'']"
    by (simp add: included_def)
  from e duplicate_doc_extract
  have u: "ui = [(''src/lib/utils.ts'', JStr ''new222''),
                 (''src/components/ui/card.tsx'', JStr ''ccc333'')]"
    by simp
  have t: "dumps ui =
        ''{'' @ [CHR 0x0A] @
        ''  '' @ [CHR 0x22] @ ''src/lib/utils.ts'' @ [CHR 0x22] @ '': ''
             @ [CHR 0x22] @ ''new222'' @ [CHR 0x22] @ '','' @ [CHR 0x0A] @
        ''  '' @ [CHR 0x22] @ ''src/components/ui/card.tsx'' @ [CHR 0x22] @ '': ''
             @ [CHR 0x22] @ ''ccc333'' @ [CHR 0x22] @ [CHR 0x0A] @
        ''}''"
    using d unfolding u list.case fst_conv snd_conv
    by (simp only: duplicate_doc_text)
  show ?thesis
  proof (intro conjI exI)
    show "extract_shas duplicate_doc = Inr ui" by (rule e)
  qed (rule duplicate_doc_pairs, rule h, rule t)
qed

lemma loop_not_subscriptable:
  "getitem item ''path'' = Inl e \<Longrightarrow> loop (item # items) ui = Inl e"
  by (simp add: loop_body_def)





text \<open>
  C8 (empty tree). When \<open>data['tree']\<close> is the empty list the loop ends with the empty
  dict, \<open>json.dumps\<close> of the empty dict is \<open>{}\<close>, and the script prints that line.
\<close>

theorem empty_tree_empty_output:
  assumes "getitem data ''tree'' = Inr (JArr [])"
  shows "extract_shas data = Inr [] \<and> dumps [] = ''{}'' \<and>
         (\<forall>content. files w ''tree_client.json'' = Some content \<longrightarrow>
            json_load content = Some data \<longrightarrow>
            script json_load w = (w\<lparr>stdout := stdout w @ ''{}'' @ [CHR 0x0A]\<rparr>, None))"
proof -
  from assms have e: "extract_shas data = Inr []"
    by (simp add: extract_shas_def)
  have d: "dumps [] = ''{}''"
    by (simp add: dumps_def)
  from e d show ?thesis
    by (simp add: script_def print_def)
qed

theorem empty_tree_empty_output_witness:
  "getitem (JObj [(''tree'', JArr [])]) ''tree'' = Inr (JArr []) \<and>
   extract_shas (JObj [(''tree'', JArr [])]) = Inr [] \<and>
   stdout (fst (script (load_as (JObj [(''tree'', JArr [])])) (world_with ''{ }''))) =
     ''{}'' @ [CHR 0x0A]"
proof -
  have g: "getitem (JObj [(''tree'', JArr [])]) ''tree'' = Inr (JArr [])" by simp
  have f: "files (world_with ''{ }'') ''tree_client.json'' = Some ''{ }''"
    by (simp add: world_with_def)
  have l: "load_as (JObj [(''tree'', JArr [])]) ''{ }'' = Some (JObj [(''tree'', JArr [])])"
    by (simp add: load_as_def)
  note t = empty_tree_empty_output [OF g, of "world_with ''{ }''"
     "load_as (JObj [(''tree'', JArr [])])"]
  from t have "extract_shas (JObj [(''tree'', JArr [])]) = Inr []" by (rule conjunct1)
  moreover from t f l
  have "script (load_as (JObj [(''tree'', JArr [])])) (world_with ''{ }'') =
      ((world_with ''{ }'')\<lparr>stdout := stdout (world_with ''{ }'') @ ''{}'' @ [CHR 0x0A]\<rparr>, None)"
    by blast
  ultimately show ?thesis using g by (simp add: world_with_def)
qed

lemma loop_append:
  "loop (pre @ post) ui =
     (case loop pre ui of Inl e \<Rightarrow> Inl e | Inr ui' \<Rightarrow> loop post ui')"
  by (induction pre arbitrary: ui) (auto split: sum.splits)

lemma loop_body_unmatched:
  assumes "map_of e' ''path'' = map_of e ''path''"
    and "\<not> (\<exists>p. map_of e ''path'' = Some (JStr p) \<and> included p)"
  shows "loop_body (JObj e') ui = loop_body (JObj e) ui"
  using assms by (auto simp: loop_body_def split: option.splits json.splits)

lemma loop_body_skip:
  "map_of e ''path'' = Some (JStr p) \<Longrightarrow> \<not> included p \<Longrightarrow> loop_body (JObj e) ui = Inr ui"
  by (simp add: loop_body_def)

text \<open>
  C10 (\<open>sha\<close> is read for matching entries only). Take a document whose tree is a list
  and an entry of it that is a dict whose \<open>path\<close> is not a matching str. Replacing the
  entry by any dict with the same \<open>path\<close>, whatever its \<open>sha\<close> is and whether it has one,
  changes neither the result of the loop nor its failure; and when the \<open>path\<close> is a str,
  the turn of the loop for that entry succeeds and leaves the dict as it was.
\<close>

theorem sha_read_only_when_matched:
  assumes "getitem data ''tree'' = Inr (JArr (pre @ JObj e # post))"
    and "getitem data' ''tree'' = Inr (JArr (pre @ JObj e' # post))"
    and "map_of e' ''path'' = map_of e ''path''"
    and "\<not> (\<exists>p. map_of e ''path'' = Some (JStr p) \<and> included p)"
  shows "extract_shas data' = extract_shas data \<and>
         (\<forall>p ui. map_of e ''path'' = Some (JStr p) \<longrightarrow>
            loop_body (JObj e') ui = Inr ui \<and>
            loop (pre @ JObj e' # post) ui = loop (pre @ post) ui)"
proof (intro conjI allI impI)
  have "loop (JObj e' # post) ui = loop (JObj e # post) ui" for ui
    by (simp add: loop_body_unmatched [OF assms(3,4)])
  then have "loop (pre @ JObj e' # post) [] = loop (pre @ JObj e # post) []"
    by (simp only: loop_append)
  with assms(1,2) show "extract_shas data' = extract_shas data"
    by (simp add: extract_shas_def)
next
  fix p ui
  assume p: "map_of e ''path'' = Some (JStr p)"
  with assms(4) have n: "\<not> included p" by simp
  from p assms(3) have p': "map_of e' ''path'' = Some (JStr p)" by simp
  show "loop_body (JObj e') ui = Inr ui"
    using p' n by (rule loop_body_skip)
  have "loop (JObj e' # post) ui' = loop post ui'" for ui'
    by (simp add: loop_body_skip [OF p' n])
  then show "loop (pre @ JObj e' # post) ui = loop (pre @ post) ui"
    by (simp only: loop_append)
qed

theorem sha_read_only_when_matched_witness:
  "extract_shas unmatched_no_sha_doc =
     extract_shas (JObj [(''tree'', JArr
       [JObj [(''path'', JStr ''src/components/ui/button.tsx''), (''sha'', JStr ''abc123'')],
        JObj [(''path'', JStr ''src/pages/index.tsx''), (''sha'', JStr ''zzz999'')],
        JObj [(''path'', JStr ''src/lib/utils.ts''), (''sha'', JStr ''def456'')]])]) \<and>
   extract_shas unmatched_no_sha_doc =
     Inr [(''src/components/ui/button.tsx'', JStr ''abc123''),
          (''src/lib/utils.ts'', JStr ''def456'')] \<and>
   loop_body (JObj [(''path'', JStr ''src/pages/index.tsx'')]) [] = Inr []"
proof -
  let ?b = "JObj [(''path'', JStr ''src/components/ui/button.tsx''), (''sha'', JStr ''abc123'')]"
  let ?u = "JObj [(''path'', JStr ''src/lib/utils.ts''), (''sha'', JStr ''def456'')]"
  let ?e = "[(''path'', JStr ''src/pages/index.tsx''), (''sha'', JStr ''zzz999'')]"
  let ?e' = "[(''path'', JStr ''src/pages/index.tsx'')]"
  have a: "getitem (JObj [(''tree'', JArr [?b, JObj ?e, ?u])]) ''tree''
           = Inr (JArr ([?b] @ JObj ?e # [?u]))"
    by simp
  have b: "getitem unmatched_no_sha_doc ''tree'' = Inr (JArr ([?b] @ JObj ?e' # [?u]))"
    by (simp add: unmatched_no_sha_doc_def)
  have c: "map_of ?e' ''path'' = map_of ?e ''path''" by simp
  have d: "\<not> (\<exists>p. map_of ?e ''path'' = Some (JStr p) \<and> included p)"
    by (simp add: included_def)
  have p: "map_of ?e ''path'' = Some (JStr ''src/pages/index.tsx'')" by simp
  note t = sha_read_only_when_matched [OF a b c d]
  from t have 1: "extract_shas unmatched_no_sha_doc
      = extract_shas (JObj [(''tree'', JArr [?b, JObj ?e, ?u])])"
    by (rule conjunct1)
  from t p have 2: "loop_body (JObj ?e') [] = Inr []" by blast
  have 3: "extract_shas unmatched_no_sha_doc =
     Inr [(''src/components/ui/button.tsx'', JStr ''abc123''),
          (''src/lib/utils.ts'', JStr ''def456'')]"
    by (simp add: unmatched_no_sha_doc_def extract_shas_def loop_body_def included_def)
  from 1 2 3 show ?thesis by simp
qed

lemma example_doc_extra_pairs:
  "doc_pairs example_doc_extra =
     Some [(''src/components/ui/button.tsx'', ''abc123''),
           (''src/lib/utils.ts'', ''def456''),
           (''src/pages/index.tsx'', ''zzz999'')]"
  by (simp add: example_doc_extra_def)

lemma script_loaded:
  "files w ''tree_client.json'' = Some content \<Longrightarrow> json_load content = Some data \<Longrightarrow>
     script json_load w =
       (case extract_shas data of
          Inl e \<Rightarrow> (w, Some e)
        | Inr ui \<Rightarrow> (w\<lparr>stdout := stdout w @ dumps ui @ [CHR 0x0A]\<rparr>, None))"
  by (simp add: script_def print_def split: sum.splits)

text \<open>
  C7 (fields the script does not read). Two valid documents with the same list of
  \<open>(path, sha)\<close> pairs give the same result of the loop; and two runs of the script that
  read such documents, from worlds with the same standard output, end with the same
  standard output and the same outcome.
\<close>

theorem extra_fields_ignored:
  assumes "doc_pairs d1 = Some ps" and "doc_pairs d2 = Some ps"
  shows "extract_shas d1 = extract_shas d2 \<and>
         (\<forall>c1 c2. files w1 ''tree_client.json'' = Some c1 \<longrightarrow> json_load c1 = Some d1 \<longrightarrow>
            files w2 ''tree_client.json'' = Some c2 \<longrightarrow> json_load c2 = Some d2 \<longrightarrow>
            stdout w1 = stdout w2 \<longrightarrow>
              stdout (fst (script json_load w1)) = stdout (fst (script json_load w2)) \<and>
              snd (script json_load w1) = snd (script json_load w2))"
proof -
  have e1: "extract_shas d1 = Inr (collect ps [])" using assms(1) by (rule extract_valid)
  have e2: "extract_shas d2 = Inr (collect ps [])" using assms(2) by (rule extract_valid)
  show ?thesis
    by (simp add: e1 e2 script_loaded)
qed

theorem extra_fields_ignored_witness:
  "extract_shas example_doc = extract_shas example_doc_extra \<and>
   stdout (fst (script example_load (world_with ''plain''))) =
     stdout (fst (script example_load (world_with ''extra'')))"
proof -
  note t = extra_fields_ignored [OF example_doc_pairs example_doc_extra_pairs,
      of "world_with ''plain''" example_load "world_with ''extra''"]
  have f1: "files (world_with ''plain'') ''tree_client.json'' = Some ''plain''"
    by (simp add: world_with_def)
  have f2: "files (world_with ''extra'') ''tree_client.json'' = Some ''extra''"
    by (simp add: world_with_def)
  have l1: "example_load ''plain'' = Some example_doc" by (simp add: example_load_def)
  have l2: "example_load ''extra'' = Some example_doc_extra" by (simp add: example_load_def)
  have s: "stdout (world_with ''plain'') = stdout (world_with ''extra'')"
    by (simp add: world_with_def)
  from t have "extract_shas example_doc = extract_shas example_doc_extra"
    by (rule conjunct1)
  moreover from t f1 l1 f2 l2 s
  have "stdout (fst (script example_load (world_with ''plain''))) =
     stdout (fst (script example_load (world_with ''extra'')))"
    by blast
  ultimately show ?thesis by (rule conjI)
qed



lemma example_dumps:
  "dumps [(''src/components/ui/button.tsx'', JStr ''abc123''),
          (''src/lib/utils.ts'', JStr ''def456'')] =
   ''{'' @ [CHR 0x0A] @
   ''  '' @ [CHR 0x22] @ ''src/components/ui/button.tsx'' @ [CHR 0x22] @ '': ''
        @ [CHR 0x22] @ ''abc123'' @ [CHR 0x22] @ '','' @ [CHR 0x0A] @
   ''  '' @ [CHR 0x22] @ ''src/lib/utils.ts'' @ [CHR 0x22] @ '': ''
        @ [CHR 0x22] @ ''def456'' @ [CHR 0x22] @ [CHR 0x0A] @
   ''}''"
  by code_simp



end
